theory Spec2Isabelle
  imports Main
begin

section \<open>The program graph of \<open>program_impl.h\<close>\<close>

text \<open>
  \<open>program_impl\<close> owns its nodes through \<open>nodes_map\<close>
  (\<open>std::map<primitive_id, std::shared_ptr<program_node>>\<close>); the nodes point at each
  other with raw \<open>program_node*\<close> in \<open>dependencies\<close> (a \<open>std::vector\<close>) and in
  \<open>users\<close> (a \<open>std::list\<close>). A pointer is an address \<open>node_ref\<close>; the objects
  they designate live in \<open>heap\<close>, so that two references to one node alias as they do in
  the C++ code. \<open>nodes_map\<close> is kept as an association list with at most one entry for
  a key, in the order of registration.
\<close>

type_synonym primitive_id = string
type_synonym node_ref = nat

record program_node =
  id_of :: primitive_id
  dependencies :: "node_ref list"
  users :: "node_ref list"
  is_output :: bool

record primitive =
  prim_id :: primitive_id
  prim_input :: "primitive_id list"

datatype error =
    Out_of_range
  | Runtime_error string
  | Invalid_index nat
  | Cycle_detected

record program_impl =
  heap :: "node_ref \<Rightarrow> program_node"
  inputs :: "node_ref list"
  outputs :: "node_ref list"
  processing_order :: "node_ref list"
  nodes_map :: "(primitive_id \<times> node_ref) list"
  optimized_out :: "primitive_id list"

subsection \<open>Lookup\<close>

text \<open>\<open>std::map::at\<close>: throws \<open>std::out_of_range\<close> for a missing key, inserts nothing.\<close>

definition map_at :: "(primitive_id \<times> node_ref) list \<Rightarrow> primitive_id \<Rightarrow> error + node_ref" where
  "map_at m k = (case map_of m k of None \<Rightarrow> Inl Out_of_range | Some r \<Rightarrow> Inr r)"

text \<open>\<open>std::map::count\<close>: the number of entries with the key, 0 or 1.\<close>

definition map_count :: "(primitive_id \<times> node_ref) list \<Rightarrow> primitive_id \<Rightarrow> nat" where
  "map_count m k = (case map_of m k of None \<Rightarrow> 0 | Some r \<Rightarrow> 1)"

text \<open>
  \<open>get_node\<close> (lines 56-66) is not \<open>const\<close>, so it is given the program and returns it
  with the result; \<open>catch (...)\<close> turns whatever \<open>at\<close> threw into the
  \<open>std::runtime_error\<close>. The \<open>const\<close> overload (lines 73-83) has the same body and
  cannot write to the program.
\<close>

definition get_node :: "program_impl \<Rightarrow> primitive_id \<Rightarrow> (error + node_ref) \<times> program_impl" where
  "get_node p i =
     (case map_at (nodes_map p) i of
        Inr r \<Rightarrow> (Inr r, p)
      | Inl e \<Rightarrow> (Inl (Runtime_error (''Program doesn't contain primtive node: '' @ i)), p))"

definition get_node_const :: "program_impl \<Rightarrow> primitive_id \<Rightarrow> error + node_ref" where
  "get_node_const p i =
     (case map_at (nodes_map p) i of
        Inr r \<Rightarrow> Inr r
      | Inl e \<Rightarrow> Inl (Runtime_error (''Program doesn't contain primtive node: '' @ i)))"

definition has_node :: "program_impl \<Rightarrow> primitive_id \<Rightarrow> bool" where
  "has_node p prim = (map_count (nodes_map p) prim > 0)"

subsection \<open>Edges\<close>

text \<open>Writing one field of the node at an address.\<close>

definition set_users :: "program_impl \<Rightarrow> node_ref \<Rightarrow> node_ref list \<Rightarrow> program_impl" where
  "set_users p n us = p\<lparr>heap := (heap p)(n := (heap p n)\<lparr>users := us\<rparr>)\<rparr>"

definition set_dependencies :: "program_impl \<Rightarrow> node_ref \<Rightarrow> node_ref list \<Rightarrow> program_impl" where
  "set_dependencies p n ds = p\<lparr>heap := (heap p)(n := (heap p n)\<lparr>dependencies := ds\<rparr>)\<rparr>"

text \<open>
  \<open>add_connection\<close> (lines 175-179): two \<open>push_back\<close>s, one after the other; the second
  reads the heap the first has written, which matters when \<open>prev\<close> and \<open>next\<close> are the
  same node.
\<close>

definition add_connection :: "program_impl \<Rightarrow> node_ref \<Rightarrow> node_ref \<Rightarrow> program_impl" where
  "add_connection p prev next =
     (let p1 = set_users p prev (users (heap p prev) @ [next]);
          p2 = set_dependencies p1 next (dependencies (heap p1 next) @ [prev])
      in p2)"

text \<open>
  \<open>remove_connection\<close> (lines 181-185): \<open>std::list::remove\<close> and the erase-remove idiom
  both delete every element equal to the pointer.
\<close>

definition remove_connection :: "program_impl \<Rightarrow> node_ref \<Rightarrow> node_ref \<Rightarrow> program_impl" where
  "remove_connection p prev next =
     (let p1 = set_users p prev (removeAll next (users (heap p prev)));
          p2 = set_dependencies p1 next (removeAll prev (dependencies (heap p1 next)))
      in p2)"

subsection \<open>Invariants of the edges\<close>

text \<open>The nodes the program owns: the values of \<open>nodes_map\<close>.\<close>

definition all_nodes :: "program_impl \<Rightarrow> node_ref list" where
  "all_nodes p = map snd (nodes_map p)"

text \<open>
  Dependency and user edges mirror each other among the nodes \<open>ns\<close>: \<open>a\<close> lists \<open>b\<close> as
  a dependency exactly when \<open>b\<close> lists \<open>a\<close> as a user.
\<close>

definition mirror_on :: "node_ref list \<Rightarrow> program_impl \<Rightarrow> bool" where
  "mirror_on ns p =
     (\<forall>a \<in> set ns. \<forall>b \<in> set ns.
        (b \<in> set (dependencies (heap p a))) = (a \<in> set (users (heap p b))))"

definition mirror_invariant :: "program_impl \<Rightarrow> bool" where
  "mirror_invariant p = mirror_on (all_nodes p) p"

text \<open>The same with multiplicities: an edge occurs as often on one side as on the other.\<close>

definition mirror_count_on :: "node_ref list \<Rightarrow> program_impl \<Rightarrow> bool" where
  "mirror_count_on ns p =
     (\<forall>a \<in> set ns. \<forall>b \<in> set ns.
        count_list (dependencies (heap p a)) b = count_list (users (heap p b)) a)"

subsection \<open>Creating nodes and inserting between two nodes\<close>

text \<open>
  Modelled from the spec: the body of \<open>get_or_create\<close> (declared at line 162) is not in
  the header. The spec: it "returns the existing node for that primitive's identifier if
  present, else creates, registers in GraphStore, and returns it. Side effect:
  registration only; does not wire edges." The new node has no edges and is not an
  output; its address is one that no node of \<open>nodes_map\<close> has.
\<close>

definition blank_node :: "primitive_id \<Rightarrow> program_node" where
  "blank_node i = \<lparr>id_of = i, dependencies = [], users = [], is_output = False\<rparr>"

definition new_ref :: "program_impl \<Rightarrow> node_ref" where
  "new_ref p = Suc (fold max (all_nodes p) 0)"

definition get_or_create :: "program_impl \<Rightarrow> primitive \<Rightarrow> node_ref \<times> program_impl" where
  "get_or_create p prim =
     (case map_of (nodes_map p) (prim_id prim) of
        Some r \<Rightarrow> (r, p)
      | None \<Rightarrow>
          (let r = new_ref p
           in (r, p\<lparr>heap := (heap p)(r := blank_node (prim_id prim)),
                    nodes_map := nodes_map p @ [(prim_id prim, r)]\<rparr>)))"

text \<open>
  Modelled from the spec: the body of \<open>add_intermediate(node, next, prev_idx,
  connect_int_node_with_old_dep)\<close> (declared at line 166) is not in the header. The spec:
  it "splices node between next and the dependency currently at position prev_index in
  next's dependency list. Constraint: prev_index must be valid for next's current
  dependency count; when connect_old is true the old dependency is reconnected as a
  dependency of the inserted node"; an invalid edge index is a structural error, and the
  call "fails without modifying any existing edge". On success the old dependency loses
  \<open>next\<close> as a user once, \<open>node\<close> takes its position in the dependency list of \<open>next\<close>
  and gets \<open>next\<close> as a user.
\<close>

definition add_intermediate ::
  "program_impl \<Rightarrow> node_ref \<Rightarrow> node_ref \<Rightarrow> nat \<Rightarrow> bool \<Rightarrow> (error + unit) \<times> program_impl" where
  "add_intermediate p node next prev_idx connect_int_node_with_old_dep =
     (if prev_idx < length (dependencies (heap p next)) then
        (let prev = dependencies (heap p next) ! prev_idx;
             p1 = (if connect_int_node_with_old_dep then add_connection p prev node else p);
             p2 = set_users p1 prev (remove1 next (users (heap p1 prev)));
             p3 = set_dependencies p2 next ((dependencies (heap p2 next))[prev_idx := node]);
             p4 = set_users p3 node (users (heap p3 node) @ [next])
         in (Inr (), p4))
      else (Inl (Invalid_index prev_idx), p))"

text \<open>
  The overload for a primitive (lines 170-173) is in the header:
  \<open>add_intermediate(get_or_create(prim), next, prev_idx)\<close>. Its call has three arguments,
  so the fourth is the default \<open>true\<close> of the declaration at line 166.
\<close>

definition add_intermediate_default ::
  "program_impl \<Rightarrow> node_ref \<Rightarrow> node_ref \<Rightarrow> nat \<Rightarrow> (error + unit) \<times> program_impl" where
  "add_intermediate_default p node next prev_idx = add_intermediate p node next prev_idx True"

definition add_intermediate_prim ::
  "program_impl \<Rightarrow> primitive \<Rightarrow> node_ref \<Rightarrow> nat \<Rightarrow> (error + unit) \<times> program_impl" where
  "add_intermediate_prim p prim next prev_idx =
     (case get_or_create p prim of
        (node, p1) \<Rightarrow> add_intermediate_default p1 node next prev_idx)"

text \<open>
  The two steps the overload stands for, one after the other: first
  \<open>get_or_create(prim)\<close>, then \<open>add_intermediate\<close> on the node it returned with
  \<open>connect_int_node_with_old_dep = true\<close>.
\<close>

definition get_or_create_then_add_intermediate ::
  "program_impl \<Rightarrow> primitive \<Rightarrow> node_ref \<Rightarrow> nat \<Rightarrow> (error + unit) \<times> program_impl" where
  "get_or_create_then_add_intermediate p prim next prev_idx =
     (let created = get_or_create p prim;
          node = fst created;
          p1 = snd created
      in add_intermediate p1 node next prev_idx True)"

subsection \<open>Removing nodes\<close>

text \<open>
  Modelled from the spec: the bodies of \<open>remove_if_dangling\<close> (line 198),
  \<open>replace_all_usages\<close> (line 189) and \<open>extract_and_remove\<close> (line 203) are not in the
  header. Removing a node takes its entry out of \<open>nodes_map\<close> and out of the processing
  order and records its identifier in the optimized-out list ("identifiers of nodes
  removed during optimization"); the edges to its dependencies are taken away with
  \<open>remove_connection\<close>, both sides at once.
\<close>

definition erase_node :: "program_impl \<Rightarrow> node_ref \<Rightarrow> program_impl" where
  "erase_node p n =
     p\<lparr>nodes_map := filter (\<lambda>(k, r). r \<noteq> n) (nodes_map p),
       processing_order := removeAll n (processing_order p),
       optimized_out := optimized_out p @ [id_of (heap p n)]\<rparr>"

definition disconnect_dependencies :: "program_impl \<Rightarrow> node_ref \<Rightarrow> program_impl" where
  "disconnect_dependencies p n =
     fold (\<lambda>d q. remove_connection q d n) (dependencies (heap p n)) p"

definition remove_node :: "program_impl \<Rightarrow> node_ref \<Rightarrow> program_impl" where
  "remove_node p n = erase_node (disconnect_dependencies p n) n"

text \<open>
  Modelled from the spec: \<open>remove_if_dangling\<close> "removes node if it has no users and is
  not marked output/input; returns whether removal occurred. With detach_whole_branch,
  recursively applies the same test to now-unused former dependencies." A node is marked
  as an output by its flag and as an input by its place in the list of input nodes; only
  a node of \<open>nodes_map\<close> can be removed. The recursion is a work list: the dependencies of
  a removed node are tested next, before the rest of the list.
\<close>

definition dangling :: "program_impl \<Rightarrow> node_ref \<Rightarrow> bool" where
  "dangling p n =
     (n \<in> set (all_nodes p) \<and> users (heap p n) = [] \<and> \<not> is_output (heap p n)
      \<and> n \<notin> set (inputs p))"

function detach_branch :: "program_impl \<Rightarrow> node_ref list \<Rightarrow> program_impl" where
  "detach_branch p [] = p"
| "detach_branch p (d # ds) =
     (if dangling p d then detach_branch (remove_node p d) (dependencies (heap p d) @ ds)
      else detach_branch p ds)"
  by pat_completeness auto
termination
proof (relation "measures [\<lambda>(p, ds). length (nodes_map p), \<lambda>(p, ds). length ds]")
  show "wf (measures [\<lambda>(p, ds). length (nodes_map p), \<lambda>(p, ds). length ds])"
    by simp
next
  fix p :: program_impl and d :: node_ref and ds :: "node_ref list"
  assume "dangling p d"
  then have d: "d \<in> snd ` set (nodes_map p)"
    by (simp add: dangling_def all_nodes_def)
  have m: "nodes_map (fold (\<lambda>d q. remove_connection q d n) xs q) = nodes_map q"
    for n xs q
    by (induction xs arbitrary: q)
      (simp_all add: remove_connection_def set_users_def set_dependencies_def Let_def)
  from d obtain k where "(k, d) \<in> set (nodes_map p)"
    by auto
  then have "length (filter (\<lambda>(k, r). r \<noteq> d) (nodes_map p)) < length (nodes_map p)"
    by (rule length_filter_less) simp
  then show "((remove_node p d, dependencies (heap p d) @ ds), p, d # ds)
      \<in> measures [\<lambda>(p, ds). length (nodes_map p), \<lambda>(p, ds). length ds]"
    by (simp add: remove_node_def erase_node_def disconnect_dependencies_def m)
next
  fix p :: program_impl and d :: node_ref and ds :: "node_ref list"
  show "((p, ds), p, d # ds)
      \<in> measures [\<lambda>(p, ds). length (nodes_map p), \<lambda>(p, ds). length ds]"
    by simp
qed

definition remove_if_dangling :: "program_impl \<Rightarrow> node_ref \<Rightarrow> bool \<Rightarrow> bool \<times> program_impl" where
  "remove_if_dangling p node detach_whole_branch =
     (if dangling p node then
        (let p1 = remove_node p node;
             p2 = (if detach_whole_branch
                   then detach_branch p1 (dependencies (heap p node)) else p1)
         in (True, p2))
      else (False, p))"

text \<open>
  Modelled from the spec: \<open>replace_all_usages\<close> "rewires every user of old_node to depend
  on new_node instead, updating both sides of every affected edge; does not itself remove
  old_node". Each entry of the user list of \<open>old_node\<close> is handled in turn: the user's
  dependency list gets \<open>new_node\<close> wherever it had \<open>old_node\<close>, the positions kept, and
  \<open>new_node\<close> gets the user.
\<close>

definition replace_dependency :: "node_ref \<Rightarrow> node_ref \<Rightarrow> node_ref list \<Rightarrow> node_ref list" where
  "replace_dependency old_node new_node ds = map (\<lambda>x. if x = old_node then new_node else x) ds"

definition rewire_user :: "node_ref \<Rightarrow> node_ref \<Rightarrow> node_ref \<Rightarrow> program_impl \<Rightarrow> program_impl" where
  "rewire_user old_node new_node u q =
     (let q1 = set_dependencies q u (replace_dependency old_node new_node (dependencies (heap q u)));
          q2 = set_users q1 new_node (users (heap q1 new_node) @ [u])
      in q2)"

definition replace_all_usages :: "program_impl \<Rightarrow> node_ref \<Rightarrow> node_ref \<Rightarrow> program_impl" where
  "replace_all_usages p old_node new_node =
     (let p1 = fold (rewire_user old_node new_node) (users (heap p old_node)) p
      in set_users p1 old_node [])"

text \<open>
  Modelled from the spec: \<open>extract_and_remove\<close> "removes a node that has exactly one
  dependency and is not an output, splicing its single dependency directly to its former
  users; fails (returns false) if preconditions are unmet". The comment in the header
  (lines 200-202) gives the same precondition.
\<close>

definition extract_and_remove :: "program_impl \<Rightarrow> node_ref \<Rightarrow> bool \<times> program_impl" where
  "extract_and_remove p node =
     (if is_output (heap p node) then (False, p)
      else
        (case dependencies (heap p node) of
           [dep] \<Rightarrow>
             (let p1 = remove_connection p dep node;
                  p2 = replace_all_usages p1 node dep;
                  p3 = erase_node p2 node
              in (True, p3))
         | _ \<Rightarrow> (False, p)))"

subsection \<open>The processing order\<close>

text \<open>
  Modelled from the spec: the body of \<open>calc_processing_order\<close> (declared at line 115) is
  not in the header. The spec: it "produces a linear order consistent with the dependency
  relation; ties broken by original declaration order", and it "must detect and fail on
  any cycle". A node can be placed once all of its dependencies are placed; of the nodes
  that can be placed, the one registered first goes next; when nodes are left and none of
  them can be placed, the order does not exist and the analysis fails. The order is
  stored in \<open>processing_order\<close>.
\<close>

definition ready :: "program_impl \<Rightarrow> node_ref list \<Rightarrow> node_ref \<Rightarrow> bool" where
  "ready p placed n = (\<forall>d \<in> set (dependencies (heap p n)). d \<in> set placed)"

function place_nodes :: "program_impl \<Rightarrow> node_ref list \<Rightarrow> node_ref list \<Rightarrow> error + node_ref list" where
  "place_nodes p [] placed = Inr placed"
| "place_nodes p (r # rs) placed =
     (case find (ready p placed) (r # rs) of
        None \<Rightarrow> Inl Cycle_detected
      | Some n \<Rightarrow> place_nodes p (removeAll n (r # rs)) (placed @ [n]))"
  by pat_completeness auto
termination
proof (relation "measure (\<lambda>(p, remaining, placed). length remaining)")
  show "wf (measure (\<lambda>(p, remaining, placed). length remaining))"
    by simp
next
  fix p :: program_impl and r n :: node_ref and rs placed :: "node_ref list"
  assume "find (ready p placed) (r # rs) = Some n"
  then have "n \<in> set (r # rs)"
    by (metis find_Some_iff nth_mem)
  then have "length (removeAll n (r # rs)) < length (r # rs)"
    by (rule length_removeAll_less)
  then show "((p, removeAll n (r # rs), placed @ [n]), p, r # rs, placed)
      \<in> measure (\<lambda>(p, remaining, placed). length remaining)"
    by simp
qed

definition calc_processing_order :: "program_impl \<Rightarrow> (error + unit) \<times> program_impl" where
  "calc_processing_order p =
     (case place_nodes p (all_nodes p) [] of
        Inl e \<Rightarrow> (Inl e, p)
      | Inr order \<Rightarrow> (Inr (), p\<lparr>processing_order := order\<rparr>))"

text \<open>
  What the order is measured against: the dependency edges among the nodes of
  \<open>nodes_map\<close> (a cycle is a path of such edges from a node to itself), a graph whose
  dependencies are all nodes of \<open>nodes_map\<close>, and an order that holds every node once,
  each after all of its dependencies.
\<close>

definition dependency_edges :: "program_impl \<Rightarrow> (node_ref \<times> node_ref) set" where
  "dependency_edges p =
     {(d, n). n \<in> set (all_nodes p) \<and> d \<in> set (dependencies (heap p n))}"

definition closed_graph :: "program_impl \<Rightarrow> bool" where
  "closed_graph p =
     (\<forall>n \<in> set (all_nodes p). \<forall>d \<in> set (dependencies (heap p n)). d \<in> set (all_nodes p))"

definition after_dependencies :: "program_impl \<Rightarrow> node_ref list \<Rightarrow> bool" where
  "after_dependencies p order =
     (\<forall>i < length order. \<forall>d \<in> set (dependencies (heap p (order ! i))).
        \<exists>j < i. order ! j = d)"

definition topological_order :: "program_impl \<Rightarrow> node_ref list \<Rightarrow> bool" where
  "topological_order p order =
     (set order = set (all_nodes p) \<and> distinct order \<and> after_dependencies p order)"

subsection \<open>Memory dependencies\<close>

text \<open>
  Modelled from the spec: the bodies of \<open>prepare_memory_dependencies\<close>,
  \<open>basic_memory_dependencies\<close>, \<open>skipped_branch_memory_dependencies\<close> and
  \<open>oooq_memory_dependencies\<close> (declared at lines 150-153) are not in the header. The
  spec: the MemoryDependencyGraph is a "per-node set of identifiers denoting must not
  alias peers", "recomputed whenever the dependency analyzer runs", and "three policies
  combine, each adding conflict entries (never removing)". A policy is a relation
  between two nodes; for every pair of nodes of \<open>nodes_map\<close> that it relates, the
  identifier of the second is added to the set of the first.
\<close>

type_synonym memory_dependency_graph = "primitive_id \<Rightarrow> primitive_id set"

definition add_conflicts ::
  "(node_ref \<Rightarrow> node_ref \<Rightarrow> bool) \<Rightarrow> program_impl \<Rightarrow> memory_dependency_graph
     \<Rightarrow> memory_dependency_graph" where
  "add_conflicts conflict p g =
     (\<lambda>i. g i \<union> set [id_of (heap p b). a \<leftarrow> all_nodes p, b \<leftarrow> all_nodes p,
                              id_of (heap p a) = i \<and> conflict a b])"

text \<open>
  Modelled from the spec: basic, "two nodes conflict if their live ranges (from creation
  to last use in processing order) overlap". The range of a node starts at its position
  in the processing order and ends at the last position of one of its users; a node that
  is not in the order has the position after the last one.
\<close>

definition position :: "node_ref list \<Rightarrow> node_ref \<Rightarrow> nat" where
  "position order n = length (takeWhile (\<lambda>x. x \<noteq> n) order)"

definition live_begin :: "program_impl \<Rightarrow> node_ref \<Rightarrow> nat" where
  "live_begin p n = position (processing_order p) n"

definition live_end :: "program_impl \<Rightarrow> node_ref \<Rightarrow> nat" where
  "live_end p n =
     fold max (map (position (processing_order p)) (users (heap p n))) (live_begin p n)"

definition live_ranges_overlap :: "program_impl \<Rightarrow> node_ref \<Rightarrow> node_ref \<Rightarrow> bool" where
  "live_ranges_overlap p a b =
     (a \<noteq> b \<and> live_begin p a \<le> live_end p b \<and> live_begin p b \<le> live_end p a)"

definition basic_memory_dependencies ::
  "program_impl \<Rightarrow> memory_dependency_graph \<Rightarrow> memory_dependency_graph" where
  "basic_memory_dependencies p g = add_conflicts (live_ranges_overlap p) p g"

text \<open>
  Modelled from the spec: skipped-branch, "nodes that were conservatively reachable from
  the removed branch before optimization retain a conflict marker". The spec does not say
  which nodes these are in terms of the program (the removed branch is no longer in it)
  nor with which nodes they conflict, so the pairs of nodes that this policy finds in
  conflict are an argument, \<open>skipped\<close>; a conflict is between two nodes, and a pair
  is entered for both.
\<close>

definition skipped_branch_memory_dependencies ::
  "program_impl \<Rightarrow> (node_ref \<times> node_ref) list \<Rightarrow> memory_dependency_graph
     \<Rightarrow> memory_dependency_graph" where
  "skipped_branch_memory_dependencies p skipped g =
     add_conflicts (\<lambda>a b. (a, b) \<in> set skipped \<or> (b, a) \<in> set skipped) p g"

text \<open>
  Modelled from the spec: oooq, "any two nodes without an ancestor/descendant
  relationship in the dependency graph are treated as potentially concurrent and
  therefore conflicting".
\<close>

definition ancestor :: "program_impl \<Rightarrow> node_ref \<Rightarrow> node_ref \<Rightarrow> bool" where
  "ancestor p a b = ((a, b) \<in> (dependency_edges p)\<^sup>+)"

definition concurrent :: "program_impl \<Rightarrow> node_ref \<Rightarrow> node_ref \<Rightarrow> bool" where
  "concurrent p a b = (a \<noteq> b \<and> \<not> ancestor p a b \<and> \<not> ancestor p b a)"

definition oooq_memory_dependencies ::
  "program_impl \<Rightarrow> memory_dependency_graph \<Rightarrow> memory_dependency_graph" where
  "oooq_memory_dependencies p g = add_conflicts (concurrent p) p g"

text \<open>
  The three policies one after the other, in the order of their declarations, starting
  from the graph without entries.
\<close>

definition prepare_memory_dependencies ::
  "program_impl \<Rightarrow> (node_ref \<times> node_ref) list \<Rightarrow> memory_dependency_graph" where
  "prepare_memory_dependencies p skipped =
     (let g0 = (\<lambda>i. {});
          g1 = basic_memory_dependencies p g0;
          g2 = skipped_branch_memory_dependencies p skipped g1;
          g3 = oooq_memory_dependencies p g2
      in g3)"

text \<open>
  Node \<open>a\<close> conflicts with node \<open>b\<close> in a graph when the identifier of \<open>b\<close> is in the
  set of the identifier of \<open>a\<close>.
\<close>

definition symmetric_graph :: "memory_dependency_graph \<Rightarrow> bool" where
  "symmetric_graph g = (\<forall>i j. j \<in> g i \<longrightarrow> i \<in> g j)"

definition conflicts_with ::
  "program_impl \<Rightarrow> memory_dependency_graph \<Rightarrow> node_ref \<Rightarrow> node_ref \<Rightarrow> bool" where
  "conflicts_with p g a b = (id_of (heap p b) \<in> g (id_of (heap p a)))"

subsection \<open>A small program to evaluate on\<close>

text \<open>
  Four registered nodes \<open>a\<close>, \<open>b\<close>, \<open>c\<close> and \<open>d\<close> at the addresses 0 to 3: \<open>b\<close>
  depends on \<open>a\<close>, \<open>c\<close> depends on \<open>b\<close>, and \<open>d\<close> is not connected; \<open>a\<close> is the
  input. Every other address holds a node without edges.
\<close>

definition example_heap :: "node_ref \<Rightarrow> program_node" where
  "example_heap =
     (\<lambda>r. blank_node [])
       (0 := (blank_node ''a'')\<lparr>users := [1]\<rparr>,
        1 := (blank_node ''b'')\<lparr>dependencies := [0], users := [2]\<rparr>,
        2 := (blank_node ''c'')\<lparr>dependencies := [1]\<rparr>,
        3 := blank_node ''d'')"

definition example_program :: program_impl where
  "example_program =
     \<lparr>heap = example_heap, inputs = [0], outputs = [], processing_order = [],
      nodes_map = [(''a'', 0), (''b'', 1), (''c'', 2), (''d'', 3)], optimized_out = []\<rparr>"

text \<open>Two nodes that depend on each other.\<close>

definition cyclic_heap :: "node_ref \<Rightarrow> program_node" where
  "cyclic_heap =
     (\<lambda>r. blank_node [])
       (0 := (blank_node ''a'')\<lparr>dependencies := [1], users := [1]\<rparr>,
        1 := (blank_node ''b'')\<lparr>dependencies := [0], users := [0]\<rparr>)"

definition cyclic_program :: program_impl where
  "cyclic_program =
     \<lparr>heap = cyclic_heap, inputs = [], outputs = [], processing_order = [],
      nodes_map = [(''a'', 0), (''b'', 1)], optimized_out = []\<rparr>"

text \<open>
  The scenario of the spec: \<open>B\<close> and \<open>C\<close> both depend on \<open>A\<close> and are the outputs; the
  processing order is \<open>A\<close>, \<open>B\<close>, \<open>C\<close>.
\<close>

definition fork_heap :: "node_ref \<Rightarrow> program_node" where
  "fork_heap =
     (\<lambda>r. blank_node [])
       (0 := (blank_node ''A'')\<lparr>users := [1, 2]\<rparr>,
        1 := (blank_node ''B'')\<lparr>dependencies := [0], is_output := True\<rparr>,
        2 := (blank_node ''C'')\<lparr>dependencies := [0], is_output := True\<rparr>)"

definition fork_program :: program_impl where
  "fork_program =
     \<lparr>heap = fork_heap, inputs = [0], outputs = [1, 2], processing_order = [0, 1, 2],
      nodes_map = [(''A'', 0), (''B'', 1), (''C'', 2)], optimized_out = []\<rparr>"

section \<open>Properties\<close>

subsection \<open>Reading the heap after an edge operation\<close>

lemma add_connection_dependencies:
  "dependencies (heap (add_connection p prev next) n) =
     (if n = next then dependencies (heap p next) @ [prev] else dependencies (heap p n))"
  by (simp add: add_connection_def set_users_def set_dependencies_def Let_def)

lemma add_connection_users:
  "users (heap (add_connection p prev next) n) =
     (if n = prev then users (heap p prev) @ [next] else users (heap p n))"
  by (simp add: add_connection_def set_users_def set_dependencies_def Let_def)

lemma remove_connection_dependencies:
  "dependencies (heap (remove_connection p prev next) n) =
     (if n = next then removeAll prev (dependencies (heap p next)) else dependencies (heap p n))"
  by (simp add: remove_connection_def set_users_def set_dependencies_def Let_def)

lemma remove_connection_users:
  "users (heap (remove_connection p prev next) n) =
     (if n = prev then removeAll next (users (heap p prev)) else users (heap p n))"
  by (simp add: remove_connection_def set_users_def set_dependencies_def Let_def)

lemma add_connection_nodes_map [simp]:
  "nodes_map (add_connection p prev next) = nodes_map p"
  by (simp add: add_connection_def set_users_def set_dependencies_def Let_def)

lemma remove_connection_nodes_map [simp]:
  "nodes_map (remove_connection p prev next) = nodes_map p"
  by (simp add: remove_connection_def set_users_def set_dependencies_def Let_def)

lemma mirror_on_add_connection:
  "mirror_on ns p \<Longrightarrow> mirror_on ns (add_connection p prev next)"
  unfolding mirror_on_def
  by (auto simp: add_connection_dependencies add_connection_users)

lemma mirror_on_remove_connection:
  "mirror_on ns p \<Longrightarrow> mirror_on ns (remove_connection p prev next)"
  unfolding mirror_on_def
  by (auto simp: remove_connection_dependencies remove_connection_users)

lemma count_list_removeAll:
  "count_list (removeAll x xs) y = (if y = x then 0 else count_list xs y)"
  by (induction xs) auto

lemma mirror_count_on_add_connection:
  "mirror_count_on ns p \<Longrightarrow> mirror_count_on ns (add_connection p prev next)"
  unfolding mirror_count_on_def
  by (auto simp: add_connection_dependencies add_connection_users)

lemma mirror_count_on_remove_connection:
  "mirror_count_on ns p \<Longrightarrow> mirror_count_on ns (remove_connection p prev next)"
  unfolding mirror_count_on_def
  by (auto simp: remove_connection_dependencies remove_connection_users count_list_removeAll)

subsection \<open>Connecting and disconnecting two nodes\<close>

text \<open>
  C1. \<open>add_connection(prev, next)\<close> puts \<open>prev\<close> into the dependency list of \<open>next\<close>
  and \<open>next\<close> into the user list of \<open>prev\<close>; \<open>remove_connection(prev, next)\<close> takes
  \<open>prev\<close> out of the dependency list of \<open>next\<close> and \<open>next\<close> out of the user list of
  \<open>prev\<close>. Both sides are updated by each operation, so the mirror invariant (a node
  lists another as a dependency exactly when that one lists it as a user) holds after
  the operation whenever it held before: among the nodes of \<open>nodes_map\<close> and among any
  other collection of nodes. Nothing here needs \<open>prev\<close> and \<open>next\<close> to be distinct.
\<close>

theorem connection_keeps_mirror:
  "dependencies (heap (add_connection p prev next) next) = dependencies (heap p next) @ [prev]
   \<and> users (heap (add_connection p prev next) prev) = users (heap p prev) @ [next]
   \<and> dependencies (heap (remove_connection p prev next) next)
       = removeAll prev (dependencies (heap p next))
   \<and> users (heap (remove_connection p prev next) prev) = removeAll next (users (heap p prev))
   \<and> (mirror_invariant p \<longrightarrow>
        mirror_invariant (add_connection p prev next)
        \<and> mirror_invariant (remove_connection p prev next))
   \<and> (mirror_on ns p \<longrightarrow>
        mirror_on ns (add_connection p prev next)
        \<and> mirror_on ns (remove_connection p prev next))"
proof -
  have "mirror_invariant (add_connection p prev next)" if "mirror_invariant p"
    using that mirror_on_add_connection [of "all_nodes p" p prev "next"]
    by (simp add: mirror_invariant_def all_nodes_def)
  moreover have "mirror_invariant (remove_connection p prev next)" if "mirror_invariant p"
    using that mirror_on_remove_connection [of "all_nodes p" p prev "next"]
    by (simp add: mirror_invariant_def all_nodes_def)
  ultimately show ?thesis
    by (simp add: add_connection_dependencies add_connection_users
        remove_connection_dependencies remove_connection_users
        mirror_on_add_connection mirror_on_remove_connection)
qed

lemma example_mirror: "mirror_invariant example_program"
  by (simp add: mirror_invariant_def mirror_on_def all_nodes_def example_program_def
      example_heap_def blank_node_def)

theorem connection_keeps_mirror_witness:
  "mirror_invariant example_program
   \<and> mirror_on [0, 1, 2, 3] example_program
   \<and> mirror_invariant (add_connection example_program 0 3)
   \<and> mirror_invariant (remove_connection example_program 0 1)
   \<and> dependencies (heap (add_connection example_program 0 3) 3) = [0]
   \<and> users (heap (add_connection example_program 0 3) 0) = [1, 3]
   \<and> dependencies (heap (remove_connection example_program 0 1) 1) = []
   \<and> users (heap (remove_connection example_program 0 1) 0) = []"
proof -
  have m: "mirror_invariant example_program"
    by (rule example_mirror)
  have n: "mirror_on [0, 1, 2, 3] example_program"
    using m by (simp add: mirror_invariant_def all_nodes_def example_program_def)
  have l: "dependencies (heap example_program 3) = []" "users (heap example_program 0) = [1]"
    "dependencies (heap example_program 1) = [0]"
    by (simp_all add: example_program_def example_heap_def blank_node_def)
  show ?thesis
    using m n l connection_keeps_mirror [of example_program 0 3 "[0, 1, 2, 3]"]
      connection_keeps_mirror [of example_program 0 1 "[0, 1, 2, 3]"]
    by simp
qed

text \<open>
  C8. \<open>add_connection\<close> does not look for an existing edge: called twice for the same
  pair it leaves \<open>prev\<close> twice more at the end of the dependency list of \<open>next\<close> and
  \<open>next\<close> twice more at the end of the user list of \<open>prev\<close>. One
  \<open>remove_connection(prev, next)\<close> deletes every occurrence of \<open>next\<close> from the user
  list of \<open>prev\<close> and every occurrence of \<open>prev\<close> from the dependency list of \<open>next\<close>,
  and nothing else: those two lists are the old ones without these entries, the other
  entries in their order, and every other list is the list it was; after the two calls
  of \<open>add_connection\<close> this takes away the two new entries together with all earlier
  ones. Both operations keep the number of times an edge occurs on the dependency side
  equal to the number of times it occurs on the user side.
\<close>

theorem connection_multiset_mirror:
  "dependencies (heap (add_connection (add_connection p prev next) prev next) next)
       = dependencies (heap p next) @ [prev, prev]
   \<and> users (heap (add_connection (add_connection p prev next) prev next) prev)
       = users (heap p prev) @ [next, next]
   \<and> dependencies (heap (remove_connection p prev next) n)
       = (if n = next then removeAll prev (dependencies (heap p next))
          else dependencies (heap p n))
   \<and> users (heap (remove_connection p prev next) n)
       = (if n = prev then removeAll next (users (heap p prev)) else users (heap p n))
   \<and> dependencies
         (heap (remove_connection (add_connection (add_connection p prev next) prev next)
                  prev next) next)
       = removeAll prev (dependencies (heap p next))
   \<and> users
         (heap (remove_connection (add_connection (add_connection p prev next) prev next)
                  prev next) prev)
       = removeAll next (users (heap p prev))
   \<and> count_list (dependencies (heap (remove_connection p prev next) next)) prev = 0
   \<and> count_list (users (heap (remove_connection p prev next) prev)) next = 0
   \<and> (mirror_count_on ns p \<longrightarrow>
        mirror_count_on ns (add_connection p prev next)
        \<and> mirror_count_on ns (remove_connection p prev next))"
  by (simp add: add_connection_dependencies add_connection_users
      remove_connection_dependencies remove_connection_users count_list_removeAll
      mirror_count_on_add_connection mirror_count_on_remove_connection)

theorem connection_multiset_mirror_witness:
  "mirror_count_on [0, 1, 2, 3] example_program
   \<and> mirror_count_on [0, 1, 2, 3] (add_connection example_program 0 1)
   \<and> mirror_count_on [0, 1, 2, 3] (remove_connection example_program 0 1)
   \<and> dependencies (heap (add_connection (add_connection example_program 0 1) 0 1) 1) = [0, 0, 0]
   \<and> users (heap (add_connection (add_connection example_program 0 1) 0 1) 0) = [1, 1, 1]
   \<and> dependencies
         (heap (remove_connection (add_connection (add_connection example_program 0 1) 0 1)
                  0 1) 1) = []
   \<and> users
         (heap (remove_connection (add_connection (add_connection example_program 0 1) 0 1)
                  0 1) 0) = []
   \<and> dependencies (heap (remove_connection example_program 0 1) 2) = [1]
   \<and> users (heap (remove_connection example_program 0 1) 1) = [2]"
proof -
  have m: "mirror_count_on [0, 1, 2, 3] example_program"
    by (simp add: mirror_count_on_def example_program_def example_heap_def blank_node_def)
  have l: "users (heap example_program 0) = [1]" "dependencies (heap example_program 1) = [0]"
    "dependencies (heap example_program 2) = [1]" "users (heap example_program 1) = [2]"
    by (simp_all add: example_program_def example_heap_def blank_node_def)
  show ?thesis
    using m l connection_multiset_mirror [of example_program 0 1 2 "[0, 1, 2, 3]"]
      connection_multiset_mirror [of example_program 0 1 1 "[0, 1, 2, 3]"]
    by simp
qed

text \<open>
  C9. \<open>add_connection(prev, next)\<close> appends: the user list of \<open>prev\<close> is the old one
  followed by \<open>next\<close>, the dependency list of \<open>next\<close> is the old one followed by \<open>prev\<close>,
  so the earlier entries keep their positions and the new entry is the last one. The
  dependency list of every node other than \<open>next\<close> and the user list of every node other
  than \<open>prev\<close> are the lists they were.
\<close>

theorem add_connection_appends:
  "users (heap (add_connection p prev next) n)
       = (if n = prev then users (heap p prev) @ [next] else users (heap p n))
   \<and> dependencies (heap (add_connection p prev next) n)
       = (if n = next then dependencies (heap p next) @ [prev] else dependencies (heap p n))
   \<and> last (users (heap (add_connection p prev next) prev)) = next
   \<and> last (dependencies (heap (add_connection p prev next) next)) = prev
   \<and> butlast (users (heap (add_connection p prev next) prev)) = users (heap p prev)
   \<and> butlast (dependencies (heap (add_connection p prev next) next)) = dependencies (heap p next)"
  by (simp add: add_connection_dependencies add_connection_users)

subsection \<open>Looking a node up\<close>

text \<open>
  C6. For an identifier that \<open>nodes_map\<close> does not hold, \<open>get_node\<close> fails with the
  runtime error naming the missing primitive node, in both overloads, and the program
  it leaves is the program it was given: \<open>nodes_map\<close> and every node are as before.
\<close>

theorem get_node_not_found:
  assumes "\<not> has_node p i"
  shows "get_node p i = (Inl (Runtime_error (''Program doesn't contain primtive node: '' @ i)), p)
         \<and> get_node_const p i = Inl (Runtime_error (''Program doesn't contain primtive node: '' @ i))"
  using assms
  by (auto simp: has_node_def map_count_def get_node_def get_node_const_def map_at_def
      split: option.splits)

theorem get_node_not_found_witness:
  "\<not> has_node example_program ''e''
   \<and> get_node example_program ''e''
       = (Inl (Runtime_error ''Program doesn't contain primtive node: e''), example_program)
   \<and> get_node_const example_program ''e''
       = Inl (Runtime_error ''Program doesn't contain primtive node: e'')"
proof -
  have h: "\<not> has_node example_program ''e''"
    by (simp add: has_node_def map_count_def example_program_def)
  show ?thesis
    using h get_node_not_found [OF h] by simp
qed

subsection \<open>Inserting an intermediate node\<close>

text \<open>
  C7. When \<open>prev_idx\<close> is not an index of the dependency list of \<open>next\<close>,
  \<open>add_intermediate(node, next, prev_idx)\<close> fails, whatever the fourth argument, and
  the program is left as it was: the dependency list and the user list of every node
  are unchanged.
\<close>

theorem add_intermediate_out_of_range:
  assumes "\<not> prev_idx < length (dependencies (heap p next))"
  shows "add_intermediate p node next prev_idx connect_old = (Inl (Invalid_index prev_idx), p)
         \<and> (\<forall>n. dependencies (heap (snd (add_intermediate p node next prev_idx connect_old)) n)
                   = dependencies (heap p n)
                \<and> users (heap (snd (add_intermediate p node next prev_idx connect_old)) n)
                   = users (heap p n))"
  using assms by (simp add: add_intermediate_def)

theorem add_intermediate_out_of_range_witness:
  "\<not> 1 < length (dependencies (heap example_program 1))
   \<and> add_intermediate example_program 3 1 1 True = (Inl (Invalid_index 1), example_program)"
proof -
  have h: "\<not> 1 < length (dependencies (heap example_program 1))"
    by (simp add: example_program_def example_heap_def blank_node_def)
  show ?thesis
    using h add_intermediate_out_of_range [OF h, of 3 True] by simp
qed

text \<open>
  C10. The overload \<open>add_intermediate(prim, next, prev_idx)\<close> gives the result and the
  program that \<open>get_or_create(prim)\<close> followed by \<open>add_intermediate\<close> on the returned
  node, with \<open>connect_int_node_with_old_dep = true\<close>, gives.
\<close>

theorem add_intermediate_prim_sequence:
  "add_intermediate_prim p prim next prev_idx
     = get_or_create_then_add_intermediate p prim next prev_idx"
  by (simp add: add_intermediate_prim_def get_or_create_then_add_intermediate_def
      add_intermediate_default_def Let_def split: prod.splits)

subsection \<open>Removing a dangling node\<close>

lemma fold_remove_connection_nodes_map:
  "nodes_map (fold (\<lambda>d q. remove_connection q d n) ds q) = nodes_map q"
  by (induction ds arbitrary: q) simp_all

lemma fold_remove_connection_users:
  "users (heap (fold (\<lambda>d q. remove_connection q d n) ds q) m) =
     (if m \<in> set ds then removeAll n (users (heap q m)) else users (heap q m))"
  by (induction ds arbitrary: q) (auto simp: remove_connection_users)

lemma fold_remove_connection_dependencies:
  "dependencies (heap (fold (\<lambda>d q. remove_connection q d n) ds q) m) =
     (if m = n then filter (\<lambda>x. x \<notin> set ds) (dependencies (heap q n))
      else dependencies (heap q m))"
  by (induction ds arbitrary: q)
    (auto simp: remove_connection_dependencies removeAll_filter_not_eq intro: filter_cong)

lemma remove_node_all_nodes:
  "all_nodes (remove_node p n) = removeAll n (all_nodes p)"
  by (simp add: remove_node_def erase_node_def disconnect_dependencies_def all_nodes_def
      fold_remove_connection_nodes_map removeAll_filter_not_eq filter_map comp_def
      case_prod_unfold eq_commute)

lemma remove_node_users:
  "users (heap (remove_node p n) m) =
     (if m \<in> set (dependencies (heap p n)) then removeAll n (users (heap p m))
      else users (heap p m))"
  by (simp add: remove_node_def erase_node_def disconnect_dependencies_def
      fold_remove_connection_users)

lemma remove_node_dependencies:
  "dependencies (heap (remove_node p n) m) =
     (if m = n then [] else dependencies (heap p m))"
  by (simp add: remove_node_def erase_node_def disconnect_dependencies_def
      fold_remove_connection_dependencies)

lemma detach_branch_shrinks:
  "set (all_nodes (detach_branch p ds)) \<subseteq> set (all_nodes p)
   \<and> set (dependencies (heap (detach_branch p ds) m)) \<subseteq> set (dependencies (heap p m))
   \<and> set (users (heap (detach_branch p ds) m)) \<subseteq> set (users (heap p m))"
proof (induction p ds rule: detach_branch.induct)
  case (1 p)
  then show ?case by simp
next
  case (2 p d ds)
  show ?case
  proof (cases "dangling p d")
    case True
    have "set (all_nodes (remove_node p d)) \<subseteq> set (all_nodes p)"
      "set (dependencies (heap (remove_node p d) m)) \<subseteq> set (dependencies (heap p m))"
      "set (users (heap (remove_node p d) m)) \<subseteq> set (users (heap p m))"
      by (auto simp: remove_node_all_nodes remove_node_dependencies remove_node_users)
    with True "2.IH"(1) show ?thesis by auto
  next
    case False
    with "2.IH"(2) show ?thesis by simp
  qed
qed

lemma remove_node_absent:
  assumes m: "mirror_invariant p" and d: "dangling p n"
  shows "n \<notin> set (all_nodes (remove_node p n))"
    and "\<forall>m \<in> set (all_nodes (remove_node p n)).
           n \<notin> set (dependencies (heap (remove_node p n) m))
           \<and> n \<notin> set (users (heap (remove_node p n) m))"
proof -
  show "n \<notin> set (all_nodes (remove_node p n))"
    by (simp add: remove_node_all_nodes)
  from d have reg: "n \<in> set (all_nodes p)" and nu: "users (heap p n) = []"
    by (simp_all add: dangling_def)
  show "\<forall>m \<in> set (all_nodes (remove_node p n)).
           n \<notin> set (dependencies (heap (remove_node p n) m))
           \<and> n \<notin> set (users (heap (remove_node p n) m))"
  proof
    fix m assume "m \<in> set (all_nodes (remove_node p n))"
    then have mr: "m \<in> set (all_nodes p)" and ne: "m \<noteq> n"
      by (simp_all add: remove_node_all_nodes)
    from m reg mr nu have a: "n \<notin> set (dependencies (heap p m))"
      by (auto simp: mirror_invariant_def mirror_on_def)
    from m reg mr have b: "n \<in> set (users (heap p m)) \<Longrightarrow> m \<in> set (dependencies (heap p n))"
      by (auto simp: mirror_invariant_def mirror_on_def)
    from a b ne show "n \<notin> set (dependencies (heap (remove_node p n) m))
           \<and> n \<notin> set (users (heap (remove_node p n) m))"
      by (auto simp: remove_node_dependencies remove_node_users)
  qed
qed

text \<open>
  C4. In a program whose edges mirror each other, when \<open>remove_if_dangling(node)\<close>
  returns true the node is the value of no entry of \<open>nodes_map\<close>, and no node that is
  left lists it as a dependency or as a user. It returns true only for a node without
  users that is neither marked as an output nor an input, and its result tells whether
  the node was removed: true exactly when the node was in \<open>nodes_map\<close> before and is
  not after; when it returns false the program is unchanged. This holds with and
  without \<open>detach_whole_branch\<close>.
\<close>

theorem remove_if_dangling_removes:
  assumes "mirror_invariant p"
  shows "(fst (remove_if_dangling p n detach) \<longrightarrow>
            n \<notin> set (all_nodes (snd (remove_if_dangling p n detach)))
            \<and> (\<forall>m \<in> set (all_nodes (snd (remove_if_dangling p n detach))).
                  n \<notin> set (dependencies (heap (snd (remove_if_dangling p n detach)) m))
                  \<and> n \<notin> set (users (heap (snd (remove_if_dangling p n detach)) m))))
         \<and> (fst (remove_if_dangling p n detach) \<longrightarrow>
            users (heap p n) = [] \<and> \<not> is_output (heap p n) \<and> n \<notin> set (inputs p))
         \<and> fst (remove_if_dangling p n detach)
            = (n \<in> set (all_nodes p) \<and> n \<notin> set (all_nodes (snd (remove_if_dangling p n detach))))
         \<and> (\<not> fst (remove_if_dangling p n detach) \<longrightarrow> snd (remove_if_dangling p n detach) = p)"
proof (cases "dangling p n")
  case False
  then show ?thesis
    by (simp add: remove_if_dangling_def)
next
  case True
  define p1 where "p1 = remove_node p n"
  define p2 where "p2 = snd (remove_if_dangling p n detach)"
  have r: "remove_if_dangling p n detach = (True, p2)"
    using True by (simp add: p2_def remove_if_dangling_def Let_def)
  have p2: "p2 = p1 \<or> p2 = detach_branch p1 (dependencies (heap p n))"
    using True by (simp add: p2_def p1_def remove_if_dangling_def Let_def)
  have sub: "set (all_nodes p2) \<subseteq> set (all_nodes p1)"
    "\<And>m. set (dependencies (heap p2 m)) \<subseteq> set (dependencies (heap p1 m))"
    "\<And>m. set (users (heap p2 m)) \<subseteq> set (users (heap p1 m))"
    using p2 detach_branch_shrinks [of p1 "dependencies (heap p n)"] by auto
  have abs: "n \<notin> set (all_nodes p1)"
    "\<forall>m \<in> set (all_nodes p1).
       n \<notin> set (dependencies (heap p1 m)) \<and> n \<notin> set (users (heap p1 m))"
    using remove_node_absent [OF assms True] by (simp_all add: p1_def)
  have "n \<notin> set (all_nodes p2)"
    using abs(1) sub(1) by auto
  moreover have "\<forall>m \<in> set (all_nodes p2).
       n \<notin> set (dependencies (heap p2 m)) \<and> n \<notin> set (users (heap p2 m))"
    using abs(2) sub by blast
  moreover have "users (heap p n) = []" "\<not> is_output (heap p n)" "n \<notin> set (inputs p)"
    "n \<in> set (all_nodes p)"
    using True by (simp_all add: dangling_def)
  ultimately show ?thesis
    by (simp add: r)
qed

lemma example_dangling: "dangling example_program 2"
  by (simp add: dangling_def all_nodes_def example_program_def example_heap_def blank_node_def)

theorem remove_if_dangling_removes_witness:
  "mirror_invariant example_program
   \<and> fst (remove_if_dangling example_program 2 True)
   \<and> all_nodes (snd (remove_if_dangling example_program 2 True)) = [0, 3]
   \<and> 2 \<notin> set (users (heap (snd (remove_if_dangling example_program 2 True)) 0))
   \<and> 2 \<notin> set (dependencies (heap (snd (remove_if_dangling example_program 2 True)) 0))
   \<and> 2 \<notin> set (users (heap (snd (remove_if_dangling example_program 2 True)) 3))
   \<and> 2 \<notin> set (dependencies (heap (snd (remove_if_dangling example_program 2 True)) 3))"
proof -
  define q where "q = snd (remove_if_dangling example_program 2 True)"
  have f: "fst (remove_if_dangling example_program 2 True)"
    using example_dangling by (simp add: remove_if_dangling_def Let_def)
  have a: "all_nodes q = [0, 3]"
    unfolding q_def by code_simp
  have "\<forall>m \<in> set (all_nodes q).
          2 \<notin> set (dependencies (heap q m)) \<and> 2 \<notin> set (users (heap q m))"
    using f remove_if_dangling_removes [OF example_mirror, of 2 True]
    unfolding q_def by blast
  then have "2 \<notin> set (dependencies (heap q 0)) \<and> 2 \<notin> set (users (heap q 0))
      \<and> 2 \<notin> set (dependencies (heap q 3)) \<and> 2 \<notin> set (users (heap q 3))"
    unfolding a by simp
  then show ?thesis
    using f a example_mirror unfolding q_def by blast
qed

subsection \<open>Extracting a node\<close>

lemma replace_dependency_idem:
  "replace_dependency a b (replace_dependency a b ds) = replace_dependency a b ds"
  by (simp add: replace_dependency_def)

lemma rewire_user_dependencies:
  "dependencies (heap (rewire_user a b u q) m) =
     (if m = u then replace_dependency a b (dependencies (heap q u)) else dependencies (heap q m))"
  by (simp add: rewire_user_def set_users_def set_dependencies_def Let_def)

lemma rewire_user_users:
  "users (heap (rewire_user a b u q) m) =
     (if m = b then users (heap q b) @ [u] else users (heap q m))"
  by (simp add: rewire_user_def set_users_def set_dependencies_def Let_def)

lemma fold_rewire_user_dependencies:
  "dependencies (heap (fold (rewire_user a b) us q) m) =
     (if m \<in> set us then replace_dependency a b (dependencies (heap q m))
      else dependencies (heap q m))"
  by (induction us arbitrary: q) (auto simp: rewire_user_dependencies replace_dependency_idem)

lemma fold_rewire_user_users:
  "users (heap (fold (rewire_user a b) us q) m) =
     (if m = b then users (heap q b) @ us else users (heap q m))"
  by (induction us arbitrary: q) (auto simp: rewire_user_users)

lemma fold_rewire_user_nodes_map:
  "nodes_map (fold (rewire_user a b) us q) = nodes_map q"
  by (induction us arbitrary: q) (auto simp: rewire_user_def set_users_def set_dependencies_def Let_def)

lemma replace_all_usages_dependencies:
  "dependencies (heap (replace_all_usages p a b) m) =
     (if m \<in> set (users (heap p a)) then replace_dependency a b (dependencies (heap p m))
      else dependencies (heap p m))"
  by (simp add: replace_all_usages_def Let_def set_users_def fold_rewire_user_dependencies)

lemma replace_all_usages_users:
  "users (heap (replace_all_usages p a b) m) =
     (if m = a then [] else if m = b then users (heap p b) @ users (heap p a)
      else users (heap p m))"
  by (simp add: replace_all_usages_def Let_def set_users_def fold_rewire_user_users)

lemma replace_all_usages_nodes_map:
  "nodes_map (replace_all_usages p a b) = nodes_map p"
  by (simp add: replace_all_usages_def Let_def set_users_def fold_rewire_user_nodes_map)

lemma erase_node_heap: "heap (erase_node p n) = heap p"
  by (simp add: erase_node_def)

lemma erase_node_all_nodes: "all_nodes (erase_node p n) = removeAll n (all_nodes p)"
  by (simp add: erase_node_def all_nodes_def removeAll_filter_not_eq filter_map comp_def
      case_prod_unfold eq_commute)

text \<open>
  C5. \<open>extract_and_remove(node)\<close> returns false and leaves the program as it was when
  the node is marked as an output or does not have exactly one dependency. Otherwise it
  returns true and the node is no longer in \<open>nodes_map\<close>, the other entries staying;
  when the single dependency \<open>d\<close> is another node, every former user of the node has
  \<open>d\<close> in its dependency list at the positions where it had the node, the dependency
  lists of the other nodes are unchanged, and the user list of \<open>d\<close> is its old one
  without the node, followed by the node's former users.
\<close>

theorem extract_and_remove_splices:
  "(is_output (heap p n) \<or> length (dependencies (heap p n)) \<noteq> 1 \<longrightarrow>
      extract_and_remove p n = (False, p))
   \<and> (\<not> is_output (heap p n) \<and> dependencies (heap p n) = [d] \<longrightarrow>
        fst (extract_and_remove p n)
        \<and> n \<notin> set (all_nodes (snd (extract_and_remove p n)))
        \<and> set (all_nodes (snd (extract_and_remove p n))) = set (all_nodes p) - {n})
   \<and> (\<not> is_output (heap p n) \<and> dependencies (heap p n) = [d] \<and> d \<noteq> n \<longrightarrow>
        users (heap (snd (extract_and_remove p n)) d)
          = removeAll n (users (heap p d)) @ users (heap p n)
        \<and> (\<forall>u. u \<noteq> n \<longrightarrow>
              dependencies (heap (snd (extract_and_remove p n)) u)
                = (if u \<in> set (users (heap p n))
                   then replace_dependency n d (dependencies (heap p u))
                   else dependencies (heap p u))))"
proof (intro conjI impI)
  assume "is_output (heap p n) \<or> length (dependencies (heap p n)) \<noteq> 1"
  then show "extract_and_remove p n = (False, p)"
    by (auto simp: extract_and_remove_def split: list.splits)
next
  assume a: "\<not> is_output (heap p n) \<and> dependencies (heap p n) = [d]"
  then show "fst (extract_and_remove p n)"
    by (simp add: extract_and_remove_def Let_def)
  from a show "n \<notin> set (all_nodes (snd (extract_and_remove p n)))"
    by (simp add: extract_and_remove_def Let_def erase_node_all_nodes)
  from a show "set (all_nodes (snd (extract_and_remove p n))) = set (all_nodes p) - {n}"
  proof -
    have "all_nodes (replace_all_usages (remove_connection p d n) n d) = all_nodes p"
      by (simp add: all_nodes_def replace_all_usages_nodes_map)
    with a show ?thesis
      by (auto simp: extract_and_remove_def Let_def erase_node_all_nodes)
  qed
next
  assume a: "\<not> is_output (heap p n) \<and> dependencies (heap p n) = [d] \<and> d \<noteq> n"
  then have e: "snd (extract_and_remove p n)
      = erase_node (replace_all_usages (remove_connection p d n) n d) n"
    by (simp add: extract_and_remove_def Let_def)
  from a show "users (heap (snd (extract_and_remove p n)) d)
          = removeAll n (users (heap p d)) @ users (heap p n)"
    by (simp add: e erase_node_heap replace_all_usages_users remove_connection_users)
  from a show "\<forall>u. u \<noteq> n \<longrightarrow>
              dependencies (heap (snd (extract_and_remove p n)) u)
                = (if u \<in> set (users (heap p n))
                   then replace_dependency n d (dependencies (heap p u))
                   else dependencies (heap p u))"
    by (simp add: e erase_node_heap replace_all_usages_dependencies remove_connection_users
        remove_connection_dependencies)
qed


theorem extract_and_remove_splices_witness:
  "\<not> is_output (heap example_program 1) \<and> dependencies (heap example_program 1) = [0]
   \<and> (0::nat) \<noteq> 1
   \<and> fst (extract_and_remove example_program 1)
   \<and> 1 \<notin> set (all_nodes (snd (extract_and_remove example_program 1)))
   \<and> users (heap (snd (extract_and_remove example_program 1)) 0) = [2]
   \<and> dependencies (heap (snd (extract_and_remove example_program 1)) 2) = [0]
   \<and> length (dependencies (heap example_program 3)) \<noteq> 1
   \<and> extract_and_remove example_program 3 = (False, example_program)"
proof -
  have l: "\<not> is_output (heap example_program 1)" "dependencies (heap example_program 1) = [0]"
    "users (heap example_program 1) = [2]" "users (heap example_program 0) = [1]"
    "dependencies (heap example_program 2) = [1]" "dependencies (heap example_program 3) = []"
    by (simp_all add: example_program_def example_heap_def blank_node_def)
  show ?thesis
    using l extract_and_remove_splices [of example_program 1 0]
      extract_and_remove_splices [of example_program 3 0]
    by (simp add: replace_dependency_def)
qed

subsection \<open>The processing order is topological\<close>

lemma find_Some_member: "find P xs = Some x \<Longrightarrow> x \<in> set xs \<and> P x"
  by (induction xs) (auto split: if_splits)

lemma find_member_Some: "x \<in> set xs \<Longrightarrow> P x \<Longrightarrow> \<exists>y. find P xs = Some y"
  by (induction xs) auto

lemma after_dependencies_snoc:
  assumes "after_dependencies p placed" and "ready p placed n"
  shows "after_dependencies p (placed @ [n])"
  unfolding after_dependencies_def
proof (intro allI impI ballI)
  fix i d
  assume i: "i < length (placed @ [n])"
    and d: "d \<in> set (dependencies (heap p ((placed @ [n]) ! i)))"
  have "\<exists>j<i. j < length placed \<and> placed ! j = d"
  proof (cases "i < length placed")
    case True
    then have "(placed @ [n]) ! i = placed ! i"
      by (simp add: nth_append)
    with d have "d \<in> set (dependencies (heap p (placed ! i)))"
      by simp
    with assms(1) True obtain j where "j < i" "placed ! j = d"
      unfolding after_dependencies_def by blast
    with True show ?thesis
      by (intro exI [of _ j]) simp
  next
    case False
    with i have e: "i = length placed" by simp
    then have "(placed @ [n]) ! i = n"
      by simp
    with d assms(2) have "d \<in> set placed"
      by (simp add: ready_def)
    then obtain j where "j < length placed" "placed ! j = d"
      unfolding in_set_conv_nth by blast
    with e show ?thesis
      by (intro exI [of _ j]) simp
  qed
  then obtain j where "j < i" "j < length placed" "placed ! j = d"
    by blast
  then show "\<exists>j<i. (placed @ [n]) ! j = d"
    by (intro exI [of _ j]) (simp add: nth_append)
qed

lemma place_nodes_sound:
  "place_nodes p remaining placed = Inr order \<Longrightarrow> distinct placed
   \<Longrightarrow> after_dependencies p placed \<Longrightarrow> set remaining \<inter> set placed = {}
   \<Longrightarrow> distinct order \<and> after_dependencies p order
       \<and> set order = set remaining \<union> set placed"
proof (induction p remaining placed rule: place_nodes.induct)
  case (1 p placed)
  then show ?case by simp
next
  case (2 p r rs placed)
  from "2.prems"(1) obtain n where f: "find (ready p placed) (r # rs) = Some n"
    and rec: "place_nodes p (removeAll n (r # rs)) (placed @ [n]) = Inr order"
    by (auto split: option.splits)
  have n: "n \<in> set (r # rs)" "ready p placed n"
    using find_Some_member [OF f] by blast+
  from n(1) "2.prems"(4) have fresh: "n \<notin> set placed"
    by auto
  have "distinct order \<and> after_dependencies p order
       \<and> set order = set (removeAll n (r # rs)) \<union> set (placed @ [n])"
  proof (rule "2.IH" [OF f rec])
    show "distinct (placed @ [n])"
      using "2.prems"(2) fresh by simp
    show "after_dependencies p (placed @ [n])"
      using "2.prems"(3) n(2) by (rule after_dependencies_snoc)
    show "set (removeAll n (r # rs)) \<inter> set (placed @ [n]) = {}"
      using "2.prems"(4) by auto
  qed
  with n(1) show ?case
    by auto
qed

lemma finite_dependency_edges: "finite (dependency_edges p)"
proof -
  have "dependency_edges p
      \<subseteq> (\<Union>n \<in> set (all_nodes p). set (dependencies (heap p n))) \<times> set (all_nodes p)"
    by (auto simp: dependency_edges_def)
  then show ?thesis
    by (rule finite_subset) simp
qed

lemma place_nodes_complete:
  "acyclic (dependency_edges p) \<Longrightarrow> set remaining \<subseteq> set (all_nodes p)
   \<Longrightarrow> \<forall>n \<in> set remaining. set (dependencies (heap p n)) \<subseteq> set remaining \<union> set placed
   \<Longrightarrow> \<exists>order. place_nodes p remaining placed = Inr order"
proof (induction p remaining placed rule: place_nodes.induct)
  case (1 p placed)
  then show ?case by simp
next
  case (2 p r rs placed)
  from "2.prems"(1) have "wf (dependency_edges p)"
    by (simp add: finite_acyclic_wf finite_dependency_edges)
  then obtain z where z: "z \<in> set (r # rs)"
    and least: "\<And>y. (y, z) \<in> dependency_edges p \<Longrightarrow> y \<notin> set (r # rs)"
    by (rule wfE_min [of _ r "set (r # rs)"]) auto
  have "ready p placed z"
    unfolding ready_def
  proof
    fix d assume d: "d \<in> set (dependencies (heap p z))"
    with z "2.prems"(2) have "(d, z) \<in> dependency_edges p"
      by (auto simp: dependency_edges_def)
    then have "d \<notin> set (r # rs)"
      by (rule least)
    with d z "2.prems"(3) show "d \<in> set placed"
      by blast
  qed
  from this z obtain n where f: "find (ready p placed) (r # rs) = Some n"
    using find_member_Some [of z "r # rs" "ready p placed"] by blast
  have n: "n \<in> set (r # rs)"
    using find_Some_member [OF f] by blast
  have "\<exists>order. place_nodes p (removeAll n (r # rs)) (placed @ [n]) = Inr order"
  proof (rule "2.IH" [OF f "2.prems"(1)])
    show "set (removeAll n (r # rs)) \<subseteq> set (all_nodes p)"
      using "2.prems"(2) by auto
    show "\<forall>m \<in> set (removeAll n (r # rs)).
        set (dependencies (heap p m)) \<subseteq> set (removeAll n (r # rs)) \<union> set (placed @ [n])"
      using "2.prems"(3) by auto
  qed
  with f show ?case
    by simp
qed

lemma topological_order_acyclic:
  assumes "topological_order p order"
  shows "acyclic (dependency_edges p)"
proof -
  define pos where "pos n = length (takeWhile (\<lambda>x. x \<noteq> n) order)" for n
  from assms have dist: "distinct order" and all: "set order = set (all_nodes p)"
    and after: "after_dependencies p order"
    by (simp_all add: topological_order_def)
  have pos: "pos (order ! i) = i" if "i < length order" for i
  proof -
    have "takeWhile (\<lambda>x. x \<noteq> order ! i) order = take i order"
      using that dist by (intro takeWhile_eq_take_P_nth) (auto simp: nth_eq_iff_index_eq)
    with that show ?thesis
      by (simp add: pos_def)
  qed
  have "dependency_edges p \<subseteq> measure pos"
  proof
    fix e assume e: "e \<in> dependency_edges p"
    obtain d n where dn: "e = (d, n)" by (cases e)
    with e all have "n \<in> set order" "d \<in> set (dependencies (heap p n))"
      by (auto simp: dependency_edges_def)
    then obtain i where i: "i < length order" "order ! i = n"
      by (auto simp: in_set_conv_nth)
    with after \<open>d \<in> set (dependencies (heap p n))\<close> obtain j where j: "j < i" "order ! j = d"
      by (auto simp: after_dependencies_def)
    with i pos [of i] pos [of j] have "pos d < pos n"
      by simp
    with dn show "e \<in> measure pos"
      by simp
  qed
  then have "wf (dependency_edges p)"
    by (rule wf_subset [OF wf_measure])
  then show ?thesis
    by (rule wf_acyclic)
qed

lemma place_nodes_error:
  "place_nodes p remaining placed = Inl e \<Longrightarrow> e = Cycle_detected"
proof (induction p remaining placed rule: place_nodes.induct)
  case (1 p placed)
  then show ?case by simp
next
  case (2 p r rs placed)
  show ?case
  proof (cases "find (ready p placed) (r # rs)")
    case None
    with "2.prems" show ?thesis by simp
  next
    case (Some n)
    with "2.prems" have "place_nodes p (removeAll n (r # rs)) (placed @ [n]) = Inl e"
      by simp
    with Some show ?thesis
      by (rule "2.IH")
  qed
qed

lemma place_nodes_topological:
  assumes "place_nodes p (all_nodes p) [] = Inr order"
  shows "topological_order p order"
  using place_nodes_sound [OF assms]
  by (simp add: topological_order_def after_dependencies_def)

text \<open>
  C2. For a graph without a dependency cycle whose dependencies are all nodes of the
  program, \<open>calc_processing_order\<close> succeeds and stores an order that holds every node
  exactly once, each node after all of its dependencies. For a graph with a dependency
  cycle it fails with the cycle error and stores no order.
\<close>

theorem calc_processing_order_topological:
  "(closed_graph p \<and> acyclic (dependency_edges p) \<longrightarrow>
      (\<exists>order. calc_processing_order p = (Inr (), p\<lparr>processing_order := order\<rparr>)
         \<and> topological_order p order))
   \<and> (\<not> acyclic (dependency_edges p) \<longrightarrow>
        calc_processing_order p = (Inl Cycle_detected, p))"
proof (intro conjI impI)
  assume a: "closed_graph p \<and> acyclic (dependency_edges p)"
  then have "\<forall>n \<in> set (all_nodes p).
      set (dependencies (heap p n)) \<subseteq> set (all_nodes p) \<union> set []"
    by (auto simp: closed_graph_def)
  with a obtain order where o: "place_nodes p (all_nodes p) [] = Inr order"
    using place_nodes_complete [of p "all_nodes p" "[]"] by blast
  then have "topological_order p order"
    by (rule place_nodes_topological)
  moreover from o have "calc_processing_order p = (Inr (), p\<lparr>processing_order := order\<rparr>)"
    by (simp add: calc_processing_order_def)
  ultimately show "\<exists>order. calc_processing_order p = (Inr (), p\<lparr>processing_order := order\<rparr>)
         \<and> topological_order p order"
    by blast
next
  assume c: "\<not> acyclic (dependency_edges p)"
  show "calc_processing_order p = (Inl Cycle_detected, p)"
  proof (cases "place_nodes p (all_nodes p) []")
    case (Inl e)
    then show ?thesis
      by (simp add: calc_processing_order_def place_nodes_error [OF Inl])
  next
    case (Inr order)
    then have "acyclic (dependency_edges p)"
      by (intro topological_order_acyclic place_nodes_topological)
    with c show ?thesis by simp
  qed
qed

lemma example_topological: "topological_order example_program [0, 1, 2, 3]"
  by (auto simp: topological_order_def after_dependencies_def all_nodes_def example_program_def
      example_heap_def blank_node_def less_Suc_eq)

lemma cyclic_program_cycle: "\<not> acyclic (dependency_edges cyclic_program)"
proof -
  have "(0, 1) \<in> dependency_edges cyclic_program" "(1, 0) \<in> dependency_edges cyclic_program"
    by (simp_all add: dependency_edges_def all_nodes_def cyclic_program_def cyclic_heap_def
        blank_node_def)
  then have "(0, 0) \<in> (dependency_edges cyclic_program)\<^sup>+"
    by (rule trancl_into_trancl2 [OF _ r_into_trancl])
  then show ?thesis
    by (auto simp: acyclic_def)
qed

theorem calc_processing_order_topological_witness:
  "closed_graph example_program \<and> acyclic (dependency_edges example_program)
   \<and> fst (calc_processing_order example_program) = Inr ()
   \<and> processing_order (snd (calc_processing_order example_program)) = [0, 1, 2, 3]
   \<and> topological_order example_program [0, 1, 2, 3]
   \<and> \<not> acyclic (dependency_edges cyclic_program)
   \<and> calc_processing_order cyclic_program = (Inl Cycle_detected, cyclic_program)"
proof -
  have c: "closed_graph example_program"
    by (simp add: closed_graph_def all_nodes_def example_program_def example_heap_def
        blank_node_def)
  have a: "acyclic (dependency_edges example_program)"
    using example_topological by (rule topological_order_acyclic)
  have o: "processing_order (snd (calc_processing_order example_program)) = [0, 1, 2, 3]"
    by code_simp
  from c a calc_processing_order_topological [of example_program]
  obtain order where r: "calc_processing_order example_program
      = (Inr (), example_program\<lparr>processing_order := order\<rparr>)"
    by blast
  have f: "fst (calc_processing_order example_program) = Inr ()"
    by (simp add: r)
  have "calc_processing_order cyclic_program = (Inl Cycle_detected, cyclic_program)"
    using cyclic_program_cycle calc_processing_order_topological [of cyclic_program]
    by blast
  with c a o f example_topological cyclic_program_cycle show ?thesis
    by blast
qed

subsection \<open>The memory dependency graph\<close>

lemma add_conflicts_member:
  "j \<in> add_conflicts c p g i \<longleftrightarrow>
     j \<in> g i \<or> (\<exists>a \<in> set (all_nodes p). \<exists>b \<in> set (all_nodes p).
                   id_of (heap p a) = i \<and> id_of (heap p b) = j \<and> c a b)"
  by (auto simp: add_conflicts_def)

lemma add_conflicts_symmetric:
  assumes g: "symmetric_graph g" and c: "\<And>a b. c a b \<Longrightarrow> c b a"
  shows "symmetric_graph (add_conflicts c p g)"
  unfolding symmetric_graph_def
proof (intro allI impI)
  fix i j
  assume "j \<in> add_conflicts c p g i"
  then consider "j \<in> g i"
    | a b where "a \<in> set (all_nodes p)" "b \<in> set (all_nodes p)"
        "id_of (heap p a) = i" "id_of (heap p b) = j" "c a b"
    unfolding add_conflicts_member by blast
  then show "i \<in> add_conflicts c p g j"
  proof cases
    case 1
    with g have "i \<in> g j"
      by (simp add: symmetric_graph_def)
    then show ?thesis
      by (simp add: add_conflicts_member)
  next
    case 2
    from 2(5) have "c b a" by (rule c)
    with 2(1-4) show ?thesis
      unfolding add_conflicts_member by blast
  qed
qed

lemma add_conflicts_superset: "g i \<subseteq> add_conflicts c p g i"
  by (simp add: add_conflicts_def)

text \<open>
  C3. The graph that \<open>prepare_memory_dependencies\<close> produces is symmetric: when node
  \<open>a\<close> conflicts with node \<open>b\<close>, node \<open>b\<close> conflicts with node \<open>a\<close> (and the same
  holds of the identifiers). Every entry that the basic policy alone produces is in it.
  Both hold whatever pairs the skipped-branch policy contributes.
\<close>

theorem memory_dependencies_symmetric_superset:
  "symmetric_graph (prepare_memory_dependencies p skipped)
   \<and> (\<forall>a b. conflicts_with p (prepare_memory_dependencies p skipped) a b
            \<longrightarrow> conflicts_with p (prepare_memory_dependencies p skipped) b a)
   \<and> (\<forall>i. basic_memory_dependencies p (\<lambda>i. {}) i \<subseteq> prepare_memory_dependencies p skipped i)"
proof -
  have s0: "symmetric_graph (\<lambda>i. {})"
    by (simp add: symmetric_graph_def)
  have s1: "symmetric_graph (basic_memory_dependencies p (\<lambda>i. {}))"
    unfolding basic_memory_dependencies_def
    by (rule add_conflicts_symmetric [OF s0]) (auto simp: live_ranges_overlap_def)
  have s2: "symmetric_graph
      (skipped_branch_memory_dependencies p skipped (basic_memory_dependencies p (\<lambda>i. {})))"
    unfolding skipped_branch_memory_dependencies_def
    by (rule add_conflicts_symmetric [OF s1]) auto
  have s3: "symmetric_graph (prepare_memory_dependencies p skipped)"
    unfolding prepare_memory_dependencies_def Let_def oooq_memory_dependencies_def
    by (rule add_conflicts_symmetric [OF s2]) (auto simp: concurrent_def)
  have sup: "basic_memory_dependencies p (\<lambda>i. {}) i \<subseteq> prepare_memory_dependencies p skipped i"
    for i
  proof -
    let ?g1 = "basic_memory_dependencies p (\<lambda>i. {})"
    let ?g2 = "skipped_branch_memory_dependencies p skipped ?g1"
    have "?g1 i \<subseteq> ?g2 i"
      unfolding skipped_branch_memory_dependencies_def by (rule add_conflicts_superset)
    also have "?g2 i \<subseteq> oooq_memory_dependencies p ?g2 i"
      unfolding oooq_memory_dependencies_def by (rule add_conflicts_superset)
    finally show ?thesis
      by (simp add: prepare_memory_dependencies_def Let_def)
  qed
  have "conflicts_with p (prepare_memory_dependencies p skipped) b a"
    if "conflicts_with p (prepare_memory_dependencies p skipped) a b" for a b
    using that s3 by (simp add: symmetric_graph_def conflicts_with_def)
  with s3 sup show ?thesis
    by blast
qed


lemma fork_edges: "dependency_edges fork_program = {(0, 1), (0, 2)}"
  by (auto simp: dependency_edges_def all_nodes_def fork_program_def fork_heap_def
      blank_node_def)

lemma fork_concurrent: "concurrent fork_program 1 2"
proof -
  have "x = 0" if "(x, y) \<in> (dependency_edges fork_program)\<^sup>+" for x y
  proof -
    from that have "x \<in> Domain ((dependency_edges fork_program)\<^sup>+)"
      by (rule DomainI)
    then show ?thesis
      by (simp add: fork_edges)
  qed
  from this [of 1 2] this [of 2 1] show ?thesis
    by (auto simp: concurrent_def ancestor_def)
qed

theorem memory_dependencies_symmetric_superset_witness:
  "conflicts_with fork_program (basic_memory_dependencies fork_program (\<lambda>i. {})) 0 1
   \<and> conflicts_with fork_program (prepare_memory_dependencies fork_program []) 0 1
   \<and> conflicts_with fork_program (prepare_memory_dependencies fork_program []) 1 0
   \<and> \<not> conflicts_with fork_program (basic_memory_dependencies fork_program (\<lambda>i. {})) 1 2
   \<and> conflicts_with fork_program (prepare_memory_dependencies fork_program []) 1 2
   \<and> conflicts_with fork_program (prepare_memory_dependencies fork_program []) 2 1"
proof -
  let ?g = "prepare_memory_dependencies fork_program []"
  have ids: "id_of (heap fork_program 0) = ''A''" "id_of (heap fork_program 1) = ''B''"
    "id_of (heap fork_program 2) = ''C''" "id_of (heap fork_program (Suc 0)) = ''B''"
    by (simp_all add: fork_program_def fork_heap_def blank_node_def)
  have b: "basic_memory_dependencies fork_program (\<lambda>i. {}) ''A'' = {''B'', ''C''}"
    "basic_memory_dependencies fork_program (\<lambda>i. {}) ''B'' = {''A''}"
    by code_simp+
  have t: "symmetric_graph ?g"
    "\<And>a b. conflicts_with fork_program ?g a b \<Longrightarrow> conflicts_with fork_program ?g b a"
    "\<And>i. basic_memory_dependencies fork_program (\<lambda>i. {}) i \<subseteq> ?g i"
    using memory_dependencies_symmetric_superset [of fork_program "[]"] by blast+
  have c01: "conflicts_with fork_program (basic_memory_dependencies fork_program (\<lambda>i. {})) 0 1"
    by (simp add: conflicts_with_def ids b)
  then have p01: "conflicts_with fork_program ?g 0 1"
    using t(3) [of "''A''"] by (auto simp: conflicts_with_def ids)
  then have p10: "conflicts_with fork_program ?g 1 0"
    by (rule t(2))
  have n12: "\<not> conflicts_with fork_program (basic_memory_dependencies fork_program (\<lambda>i. {})) 1 2"
    by (simp add: conflicts_with_def ids b)
  have "''C'' \<in> ?g ''B''"
    unfolding prepare_memory_dependencies_def Let_def oooq_memory_dependencies_def
      add_conflicts_member
    using fork_concurrent ids(2,3)
    by (intro disjI2 bexI [of _ 1] bexI [of _ 2]) (simp_all add: all_nodes_def fork_program_def)
  then have p12: "conflicts_with fork_program ?g 1 2"
    by (simp add: conflicts_with_def ids)
  then have p21: "conflicts_with fork_program ?g 2 1"
    by (rule t(2))
  from c01 p01 p10 n12 p12 p21 show ?thesis
    by blast
qed

end
